theory Spec2Isabelle
  imports Complex_Main
begin

section \<open>Numbers\<close>

text \<open>
  A JavaScript \<open>number\<close> is modelled as an exact rational: rounding of doubles is left
  out, and the numbers handed to the loop by its caller and by the clock are finite.
  The one non-finite value the loop can then compute is \<open>1000 / 0 = Infinity\<close>, the
  step interval of a loop whose step rate is zero, so the result of that division has
  a type of its own.
\<close>

type_synonym number = rat

datatype quotient = Finite number | Infinity

section \<open>The loop and its environment\<close>

text \<open>
  The calls the loop makes to its collaborators, in the order it makes them:
  \<open>setTimeout(() => this.update(), delay)\<close>, \<open>currentTime()\<close> with the value read,
  \<open>this.stepFn()\<close>, \<open>this.emit(this.onUpdate, x)\<close> and
  \<open>this.emit(this.onGameStepDropped, x)\<close>.
\<close>

datatype effect =
    SetTimeout quotient
  | CurrentTime number
  | StepFn
  | EmitUpdate number
  | EmitGameStepDropped number

text \<open>
  The step function is the caller's code. It changes the caller's own state \<open>'u\<close> and,
  as the step functions of the repository's tests do, it may call \<open>stop()\<close> on the loop
  it is driven by: the Boolean it returns says whether it did. A step function that
  calls \<open>start()\<close> or that throws is not modelled, and event handlers are taken not to
  call the loop.
\<close>

type_synonym 'u stepper = "'u \<Rightarrow> 'u \<times> bool"

text \<open>
  The fields of class \<open>GameLoop\<close> (src/game-loop.ts), followed by the part of the
  environment the loop acts on: the caller's state, the callbacks queued by
  \<open>setTimeout\<close> that have not fired yet (oldest first, each with its delay; every one
  of them is \<open>() => this.update()\<close>), and the log of effects.
\<close>

record 'u world =
  stepRate :: number
  previousStepTime :: number
  residualDelayMs :: number
  delayClamp :: number
  isRunning_flag :: bool
  stepFn :: "'u stepper"
  user :: 'u
  timers :: "quotient list"
  trace :: "effect list"

record GameLoopOptions =
  delayClampMs :: "number option"

datatype error = Error string

section \<open>Getters\<close>

text \<open>\<open>private get stepIntervalMs() { return 1000 / this.stepRate; }\<close>\<close>

definition stepIntervalMs :: "'u world \<Rightarrow> quotient" where
  "stepIntervalMs w = (if stepRate w = 0 then Infinity else Finite (1000 / stepRate w))"

text \<open>
  The public getters return a value and leave the object as it is.
  \<open>residualDelayMs / Infinity\<close> is \<open>0\<close> for the finite \<open>residualDelayMs\<close>.
\<close>

definition isRunning :: "'u world \<Rightarrow> bool \<times> 'u world" where
  "isRunning w = (isRunning_flag w, w)"

definition residualDelayAlpha :: "'u world \<Rightarrow> number \<times> 'u world" where
  "residualDelayAlpha w =
     (case stepIntervalMs w of
        Finite i \<Rightarrow> (residualDelayMs w / i, w)
      | Infinity \<Rightarrow> (0, w))"

section \<open>Construction\<close>

definition provideDefaultsForMissingOpts :: "GameLoopOptions \<Rightarrow> number" where
  "provideDefaultsForMissingOpts opts =
     (case delayClampMs opts of Some c \<Rightarrow> c | None \<Rightarrow> 200)"

text \<open>
  \<open>new GameLoop(stepFn, stepRateHz, opts)\<close>, run while the clock reads \<open>now\<close>, in an
  environment with caller state \<open>u\<close> and nothing queued. An omitted \<open>opts\<close> is the
  empty object, \<open>\<lparr>delayClampMs = None\<rparr>\<close>. The field initialisers read the clock once.
  No statement of the constructor throws, so the result is never \<open>Inl\<close>.
\<close>

definition new_GameLoop ::
  "'u stepper \<Rightarrow> number \<Rightarrow> GameLoopOptions \<Rightarrow> number \<Rightarrow> 'u \<Rightarrow> error + 'u world" where
  "new_GameLoop f stepRateHz opts now u =
     (let completeOpts = provideDefaultsForMissingOpts opts
      in Inr \<lparr>stepRate = stepRateHz,
              previousStepTime = now,
              residualDelayMs = 0,
              delayClamp = completeOpts,
              isRunning_flag = False,
              stepFn = f,
              user = u,
              timers = [],
              trace = [CurrentTime now]\<rparr>)"

section \<open>Stopping\<close>

definition stop :: "'u world \<Rightarrow> 'u world" where
  "stop w = w\<lparr>isRunning_flag := False\<rparr>"

section \<open>The scheduling cycle\<close>

text \<open>\<open>setTimeout(() => this.update(), this.stepIntervalMs)\<close>\<close>

definition queueNextIteration :: "'u world \<Rightarrow> 'u world" where
  "queueNextIteration w =
     w\<lparr>timers := timers w @ [stepIntervalMs w],
       trace := trace w @ [SetTimeout (stepIntervalMs w)]\<rparr>"

text \<open>
  \<open>const now = currentTime(); this.residualDelayMs += now - this.previousStepTime;
  this.previousStepTime = now;\<close>
\<close>

definition accumulate :: "number \<Rightarrow> 'u world \<Rightarrow> 'u world" where
  "accumulate now w =
     w\<lparr>trace := trace w @ [CurrentTime now],
       residualDelayMs := residualDelayMs w + (now - previousStepTime w),
       previousStepTime := now\<rparr>"

definition clampResidualDelay :: "'u world \<Rightarrow> 'u world" where
  "clampResidualDelay w =
     (if residualDelayMs w > delayClamp w
      then (let w' = w\<lparr>trace := trace w @
                         [EmitGameStepDropped (residualDelayMs w - delayClamp w)]\<rparr>
            in w'\<lparr>residualDelayMs := min (residualDelayMs w') (delayClamp w')\<rparr>)
      else w)"

text \<open>
  \<open>this.stepFn()\<close>: the caller's code runs; where it calls \<open>stop()\<close>, that call takes
  effect on the loop before the step function returns.
\<close>

definition callStepFn :: "'u world \<Rightarrow> 'u world" where
  "callStepFn w =
     (let (u', stopped) = stepFn w (user w);
          w' = w\<lparr>user := u', trace := trace w @ [StepFn]\<rparr>
      in if stopped then stop w' else w')"

text \<open>
  \<open>while (this.residualDelayMs >= this.stepIntervalMs)
       { this.stepFn(); this.residualDelayMs -= this.stepIntervalMs; }\<close>
  The loop need not end (a negative step rate makes the interval negative), so the
  result is optional: \<open>None\<close> is a loop that runs forever. No finite number is
  \<open>>= Infinity\<close>.
\<close>

partial_function (option) drain :: "'u world \<Rightarrow> 'u world option" where
  "drain w =
     (case stepIntervalMs w of
        Infinity \<Rightarrow> Some w
      | Finite i \<Rightarrow>
          if residualDelayMs w \<ge> i
          then (let w' = callStepFn w
                in drain (w'\<lparr>residualDelayMs := residualDelayMs w' - i\<rparr>))
          else Some w)"

declare drain.simps [code]

definition emitUpdate :: "'u world \<Rightarrow> 'u world" where
  "emitUpdate w = w\<lparr>trace := trace w @ [EmitUpdate (fst (residualDelayAlpha w))]\<rparr>"

definition update :: "number \<Rightarrow> 'u world \<Rightarrow> 'u world option" where
  "update now w =
     (if \<not> isRunning_flag w then Some w
      else (let w1 = queueNextIteration w;
                w2 = accumulate now w1;
                w3 = clampResidualDelay w2
            in case drain w3 of
                 None \<Rightarrow> None
               | Some w4 \<Rightarrow> Some (emitUpdate w4)))"

section \<open>Starting\<close>

text \<open>
  \<open>start()\<close> reads the clock (\<open>t1\<close>) and runs one cycle at once, which reads it again
  (\<open>t2\<close>).
\<close>

definition start :: "number \<Rightarrow> number \<Rightarrow> 'u world \<Rightarrow> 'u world option" where
  "start t1 t2 w =
     (let w1 = stop w;
          w2 = w1\<lparr>trace := trace w1 @ [CurrentTime t1], previousStepTime := t1\<rparr>;
          w3 = w2\<lparr>isRunning_flag := True\<rparr>
      in update t2 w3)"

section \<open>The host\<close>

text \<open>
  The host's timer facility runs the queued callbacks one at a time, oldest first;
  \<open>fire now\<close> is the host running the oldest one while the clock reads \<open>now\<close>. With
  nothing queued, nothing happens.
\<close>

definition fire :: "number \<Rightarrow> 'u world \<Rightarrow> 'u world option" where
  "fire now w =
     (case timers w of
        [] \<Rightarrow> Some w
      | d # ds \<Rightarrow> update now (w\<lparr>timers := ds\<rparr>))"

section \<open>The earlier variant\<close>

text \<open>
  The repository holds a second, earlier \<open>GameLoop\<close> (src/unnamed/part_000), driven by
  \<open>setInterval\<close>. Its \<open>clampResidualDelay()\<close> and the drain loop of its \<open>update()\<close> are
  the ones above under other field names; its \<open>update()\<close> has no guard, queues nothing
  and emits the residual delay itself. Its \<open>start()\<close>, \<open>stop()\<close> and \<open>isRunning()\<close> differ
  and are modelled here, on the fields they use and the host's recurring timers: those
  that are active, each with its identifier and its period, and the identifier the host
  hands out next.
  \<open>stop() { clearInterval(this.tickIntervalId); }\<close>
  \<open>start() { this.stop();
             this.tickIntervalId = setInterval(() => this.update(), this.stepRate);
             this.previousStepTime = currentTime(); }\<close>
  \<open>isRunning() { return this.tickIntervalId != null; }\<close>
\<close>

record ticker =
  tk_stepRate :: number
  tk_previousStepTime :: number
  tickIntervalId :: "nat option"
  intervals :: "(nat \<times> number) list"
  nextIntervalId :: nat

definition ticker_stop :: "ticker \<Rightarrow> ticker" where
  "ticker_stop w =
     (case tickIntervalId w of
        None \<Rightarrow> w
      | Some k \<Rightarrow> w\<lparr>intervals := filter (\<lambda>(k', p). k' \<noteq> k) (intervals w)\<rparr>)"

definition ticker_start :: "number \<Rightarrow> ticker \<Rightarrow> ticker" where
  "ticker_start now w =
     (let w1 = ticker_stop w;
          k = nextIntervalId w1;
          w2 = w1\<lparr>intervals := intervals w1 @ [(k, tk_stepRate w1)],
                  nextIntervalId := Suc k,
                  tickIntervalId := Some k\<rparr>
      in w2\<lparr>tk_previousStepTime := now\<rparr>)"

definition ticker_isRunning :: "ticker \<Rightarrow> bool \<times> ticker" where
  "ticker_isRunning w = (tickIntervalId w \<noteq> None, w)"

section \<open>Runs\<close>

text \<open>
  What can happen to a loop from outside: the caller calls \<open>start()\<close> (two clock
  readings) or \<open>stop()\<close>, or the host fires the oldest queued callback.
\<close>

datatype event = Start number number | Stop | Fire number

fun exec :: "event \<Rightarrow> 'u world \<Rightarrow> 'u world option" where
  "exec (Start t1 t2) w = start t1 t2 w"
| "exec Stop w = Some (stop w)"
| "exec (Fire now) w = fire now w"

fun run :: "event list \<Rightarrow> 'u world \<Rightarrow> 'u world option" where
  "run [] w = Some w"
| "run (e # es) w = (case exec e w of None \<Rightarrow> None | Some w' \<Rightarrow> run es w')"

text \<open>The clock readings an event brings with it, in order.\<close>

fun readings :: "event \<Rightarrow> number list" where
  "readings (Start t1 t2) = [t1, t2]"
| "readings Stop = []"
| "readings (Fire now) = [now]"

text \<open>A loop is constructed at clock reading \<open>t0\<close> and the events happen to it.\<close>

definition scenario ::
  "'u stepper \<Rightarrow> number \<Rightarrow> GameLoopOptions \<Rightarrow> number \<Rightarrow> 'u \<Rightarrow> event list \<Rightarrow> 'u world option" where
  "scenario f stepRateHz opts t0 u evs =
     (case new_GameLoop f stepRateHz opts t0 u of
        Inl e \<Rightarrow> None
      | Inr w \<Rightarrow> run evs w)"

section \<open>Auxiliary notions\<close>

text \<open>One turn of the drain loop's body, for an interval \<open>i\<close>.\<close>

definition tick :: "number \<Rightarrow> 'u world \<Rightarrow> 'u world" where
  "tick i w = (let w' = callStepFn w in w'\<lparr>residualDelayMs := residualDelayMs w' - i\<rparr>)"

text \<open>\<open>x < q\<close> for a finite \<open>x\<close>.\<close>

fun below :: "number \<Rightarrow> quotient \<Rightarrow> bool" where
  "below x (Finite i) = (x < i)"
| "below x Infinity = True"

text \<open>
  Two step functions over a caller state that counts the invocations: one that only
  counts, and one that also calls \<open>stop()\<close> during its first invocation.
\<close>

definition countingStep :: "nat stepper" where
  "countingStep n = (Suc n, False)"

definition stoppingStep :: "nat stepper" where
  "stoppingStep n = (Suc n, n = 0)"

text \<open>
  A loop driven by \<open>countingStep\<close> that was started while the clock read \<open>0\<close>, at the
  moment the host has taken its queued wake-up off the queue and is about to run it; the
  log is empty so that it shows one cycle only.
\<close>

definition woken :: "number \<Rightarrow> number \<Rightarrow> nat world" where
  "woken hz clamp =
     \<lparr>stepRate = hz, previousStepTime = 0, residualDelayMs = 0, delayClamp = clamp,
      isRunning_flag = True, stepFn = countingStep, user = 0, timers = [], trace = []\<rparr>"

text \<open>
  What a loop with a positive step rate and a non-negative clamp keeps true while the
  clock does not run backwards; \<open>t\<close> is the latest clock reading.
\<close>

definition wellTimed :: "number \<Rightarrow> 'u world \<Rightarrow> bool" where
  "wellTimed t w \<longleftrightarrow>
     0 < stepRate w \<and> 0 \<le> delayClamp w \<and> 0 \<le> residualDelayMs w \<and>
     residualDelayMs w < 1000 / stepRate w \<and> previousStepTime w \<le> t"

section \<open>Facts about the stages of a cycle\<close>

lemma stepIntervalMs_cong: "stepRate a = stepRate b \<Longrightarrow> stepIntervalMs a = stepIntervalMs b"
  by (simp add: stepIntervalMs_def)

lemma queueNextIteration_frame:
  "stepRate (queueNextIteration w) = stepRate w"
  "previousStepTime (queueNextIteration w) = previousStepTime w"
  "residualDelayMs (queueNextIteration w) = residualDelayMs w"
  "delayClamp (queueNextIteration w) = delayClamp w"
  "isRunning_flag (queueNextIteration w) = isRunning_flag w"
  "stepFn (queueNextIteration w) = stepFn w"
  "user (queueNextIteration w) = user w"
  "timers (queueNextIteration w) = timers w @ [stepIntervalMs w]"
  "trace (queueNextIteration w) = trace w @ [SetTimeout (stepIntervalMs w)]"
  by (simp_all add: queueNextIteration_def)

lemma accumulate_frame:
  "stepRate (accumulate now w) = stepRate w"
  "previousStepTime (accumulate now w) = now"
  "residualDelayMs (accumulate now w) = residualDelayMs w + (now - previousStepTime w)"
  "delayClamp (accumulate now w) = delayClamp w"
  "isRunning_flag (accumulate now w) = isRunning_flag w"
  "stepFn (accumulate now w) = stepFn w"
  "user (accumulate now w) = user w"
  "timers (accumulate now w) = timers w"
  "trace (accumulate now w) = trace w @ [CurrentTime now]"
  by (simp_all add: accumulate_def)

lemma clampResidualDelay_frame:
  "stepRate (clampResidualDelay w) = stepRate w"
  "previousStepTime (clampResidualDelay w) = previousStepTime w"
  "residualDelayMs (clampResidualDelay w) = min (residualDelayMs w) (delayClamp w)"
  "delayClamp (clampResidualDelay w) = delayClamp w"
  "isRunning_flag (clampResidualDelay w) = isRunning_flag w"
  "stepFn (clampResidualDelay w) = stepFn w"
  "user (clampResidualDelay w) = user w"
  "timers (clampResidualDelay w) = timers w"
  "trace (clampResidualDelay w) =
     trace w @ (if delayClamp w < residualDelayMs w
                then [EmitGameStepDropped (residualDelayMs w - delayClamp w)] else [])"
  by (simp_all add: clampResidualDelay_def Let_def)

lemma emitUpdate_frame:
  "stepRate (emitUpdate w) = stepRate w"
  "previousStepTime (emitUpdate w) = previousStepTime w"
  "residualDelayMs (emitUpdate w) = residualDelayMs w"
  "delayClamp (emitUpdate w) = delayClamp w"
  "isRunning_flag (emitUpdate w) = isRunning_flag w"
  "stepFn (emitUpdate w) = stepFn w"
  "user (emitUpdate w) = user w"
  "timers (emitUpdate w) = timers w"
  "trace (emitUpdate w) = trace w @ [EmitUpdate (fst (residualDelayAlpha w))]"
  by (simp_all add: emitUpdate_def)

lemma callStepFn_frame:
  "stepRate (callStepFn w) = stepRate w"
  "previousStepTime (callStepFn w) = previousStepTime w"
  "residualDelayMs (callStepFn w) = residualDelayMs w"
  "delayClamp (callStepFn w) = delayClamp w"
  "stepFn (callStepFn w) = stepFn w"
  "user (callStepFn w) = fst (stepFn w (user w))"
  "timers (callStepFn w) = timers w"
  "trace (callStepFn w) = trace w @ [StepFn]"
  by (simp_all add: callStepFn_def stop_def Let_def split: prod.splits)

lemma tick_frame:
  "stepRate (tick i w) = stepRate w"
  "previousStepTime (tick i w) = previousStepTime w"
  "residualDelayMs (tick i w) = residualDelayMs w - i"
  "delayClamp (tick i w) = delayClamp w"
  "stepFn (tick i w) = stepFn w"
  "user (tick i w) = fst (stepFn w (user w))"
  "timers (tick i w) = timers w"
  "trace (tick i w) = trace w @ [StepFn]"
  by (simp_all add: tick_def Let_def callStepFn_frame)

lemma funpow_tick_frame:
  "stepRate ((tick i ^^ n) w) = stepRate w"
  "previousStepTime ((tick i ^^ n) w) = previousStepTime w"
  "residualDelayMs ((tick i ^^ n) w) = residualDelayMs w - of_nat n * i"
  "delayClamp ((tick i ^^ n) w) = delayClamp w"
  "stepFn ((tick i ^^ n) w) = stepFn w"
  "timers ((tick i ^^ n) w) = timers w"
  "trace ((tick i ^^ n) w) = trace w @ replicate n StepFn"
  by (induction n; simp add: tick_frame algebra_simps replicate_append_same)+


section \<open>The drain loop\<close>

lemma drain_unfold:
  "stepIntervalMs w = Finite i \<Longrightarrow>
   drain w = (if i \<le> residualDelayMs w then drain (tick i w) else Some w)"
  by (subst drain.simps) (simp add: tick_def Let_def)

lemma drain_Infinity: "stepIntervalMs w = Infinity \<Longrightarrow> drain w = Some w"
  by (subst drain.simps) simp

lemma floor_quot_zero:
  fixes r i :: rat
  assumes "0 < i" "r < i"
  shows "nat \<lfloor>r / i\<rfloor> = 0"
proof -
  have "r / i < 1" using assms by (simp add: divide_less_eq)
  then have "\<lfloor>r / i\<rfloor> < 1" by (simp add: floor_less_iff)
  then show ?thesis by simp
qed

lemma floor_quot_Suc:
  fixes r i :: rat
  assumes "0 < i" "i \<le> r"
  shows "nat \<lfloor>r / i\<rfloor> = Suc (nat \<lfloor>(r - i) / i\<rfloor>)"
proof -
  have "(r - i) / i = r / i - 1" using assms by (simp add: diff_divide_distrib)
  then have e: "\<lfloor>(r - i) / i\<rfloor> = \<lfloor>r / i\<rfloor> - 1" by simp
  have "1 \<le> r / i" using assms by (simp add: le_divide_eq)
  then have "1 \<le> \<lfloor>r / i\<rfloor>" by (simp add: le_floor_iff)
  with e show ?thesis by linarith
qed

lemma drain_Some:
  assumes "stepIntervalMs w = Finite i" "0 < i" "n = nat \<lfloor>residualDelayMs w / i\<rfloor>"
  shows "drain w = Some ((tick i ^^ n) w)"
  using assms
proof (induction n arbitrary: w)
  case 0
  have "residualDelayMs w < i"
  proof (rule ccontr)
    assume "\<not> residualDelayMs w < i"
    then have "i \<le> residualDelayMs w" by simp
    from floor_quot_Suc[OF \<open>0 < i\<close> this] 0 show False by simp
  qed
  then show ?case using 0 by (simp add: drain_unfold)
next
  case (Suc n)
  have ge: "i \<le> residualDelayMs w"
  proof (rule ccontr)
    assume "\<not> i \<le> residualDelayMs w"
    then have "residualDelayMs w < i" by simp
    from floor_quot_zero[OF \<open>0 < i\<close> this] Suc.prems show False by simp
  qed
  have "n = nat \<lfloor>residualDelayMs (tick i w) / i\<rfloor>"
    using floor_quot_Suc[OF \<open>0 < i\<close> ge] Suc.prems by (simp add: tick_frame)
  then have "drain (tick i w) = Some ((tick i ^^ n) (tick i w))"
    using Suc.IH[of "tick i w"] Suc.prems
    by (simp add: stepIntervalMs_cong[of "tick i w" w] tick_frame)
  then show ?case using ge Suc.prems(1) by (simp add: drain_unfold funpow_swap1)
qed

lemma drain_partial:
  assumes "drain w = Some y"
  shows "\<exists>n. trace y = trace w @ replicate n StepFn \<and> timers y = timers w \<and>
             stepRate y = stepRate w \<and> below (residualDelayMs y) (stepIntervalMs y)"
  using assms
proof (induction rule: drain.raw_induct[rotated 1, consumes 1])
  case (1 d w y)
  show ?case
  proof (cases "stepIntervalMs w")
    case Infinity
    with 1(2) have "y = w" by simp
    with Infinity show ?thesis by auto
  next
    case (Finite i)
    show ?thesis
    proof (cases "i \<le> residualDelayMs w")
      case False
      with 1(2) Finite have "y = w" by simp
      with Finite False show ?thesis by auto
    next
      case True
      with 1(2) Finite have "d (tick i w) = Some y"
        by (simp add: tick_def Let_def)
      from 1(1)[OF this] obtain n where
        n: "trace y = trace (tick i w) @ replicate n StepFn" "timers y = timers (tick i w)"
           "stepRate y = stepRate (tick i w)" "below (residualDelayMs y) (stepIntervalMs y)"
        by blast
      have "trace y = trace w @ replicate (Suc n) StepFn"
        using n(1) by (simp add: tick_frame replicate_append_same)
      with n show ?thesis unfolding tick_frame by blast
    qed
  qed
qed

section \<open>The cycle as a whole\<close>

lemma update_stopped: "\<not> isRunning_flag w \<Longrightarrow> update now w = Some w"
  by (simp add: update_def)

lemma update_running:
  "isRunning_flag w \<Longrightarrow>
   update now w =
     map_option emitUpdate (drain (clampResidualDelay (accumulate now (queueNextIteration w))))"
  by (simp add: update_def Let_def split: option.splits)

lemma residualDelayAlpha_Finite:
  "stepIntervalMs w = Finite i \<Longrightarrow> fst (residualDelayAlpha w) = residualDelayMs w / i"
  by (simp add: residualDelayAlpha_def)

text \<open>A cycle of a running loop with a positive step rate, in full.\<close>

lemma update_positive_rate:
  fixes now :: number
  assumes run: "isRunning_flag w" and rate: "0 < stepRate w"
  defines "c \<equiv> clampResidualDelay (accumulate now (queueNextIteration w))"
  defines "i \<equiv> 1000 / stepRate w"
  defines "n \<equiv> nat \<lfloor>residualDelayMs c / i\<rfloor>"
  shows "update now w = Some (emitUpdate ((tick i ^^ n) c))"
proof -
  have "stepRate c = stepRate w"
    by (simp add: c_def clampResidualDelay_frame accumulate_frame queueNextIteration_frame)
  then have "stepIntervalMs c = Finite i"
    using rate by (simp add: stepIntervalMs_def i_def)
  moreover have "0 < i" using rate by (simp add: i_def)
  ultimately have "drain c = Some ((tick i ^^ n) c)"
    by (rule drain_Some) (simp add: n_def)
  then show ?thesis using run by (simp add: update_running c_def)
qed

section \<open>Evaluating concrete runs\<close>

lemma floor_divide_numeral_rat:
  "\<lfloor>numeral a / numeral b :: rat\<rfloor> = numeral a div numeral b"
  by (metis floor_divide_of_int_eq of_int_numeral)

lemmas stage_frames =
  queueNextIteration_frame accumulate_frame clampResidualDelay_frame emitUpdate_frame

lemmas cycle_eval =
  update_def Let_def queueNextIteration_def accumulate_def clampResidualDelay_def
  stepIntervalMs_def callStepFn_def stop_def emitUpdate_def residualDelayAlpha_def drain.simps

lemmas scenario_eval =
  scenario_def new_GameLoop_def provideDefaultsForMissingOpts_def start_def fire_def cycle_eval


section \<open>Starting and stopping in the earlier variant\<close>

text \<open>
  There, \<open>stop()\<close> does cancel the recurring timer, and a restart leaves one timer
  active, whose period is the step rate itself; but \<open>tickIntervalId\<close> is never cleared,
  so \<open>isRunning()\<close> keeps returning true after \<open>stop()\<close>.
\<close>

lemma ticker_stop_after_start:
  "intervals w = [] \<Longrightarrow>
   intervals (ticker_stop (ticker_start now w)) = [] \<and>
   fst (ticker_isRunning (ticker_stop (ticker_start now w)))"
  by (simp add: ticker_stop_def ticker_start_def ticker_isRunning_def Let_def
      split: option.splits)

lemma ticker_restart:
  "intervals w = [] \<Longrightarrow>
   intervals (ticker_start t2 (ticker_start t1 w)) = [(Suc (nextIntervalId w), tk_stepRate w)]"
  by (simp add: ticker_stop_def ticker_start_def Let_def split: option.splits)

section \<open>The drain loop runs once per full interval\<close>



section \<open>The clamp check\<close>

text \<open>
  Claim C3. In a cycle of a running loop, let \<open>a\<close> be the state once the elapsed time
  has been added to the residual delay. The cycle goes on from \<open>a\<close> with the clamp
  check, then the drain loop, then the update notification. If the residual of \<open>a\<close>
  exceeds the clamp, the clamp check emits one step-dropped notification whose payload
  is residual - clamp, which is positive, and sets the residual to the clamp; otherwise
  it emits nothing and changes nothing. What a completed cycle logs after the clamp
  check is calls of the step function and one update notification, so no step-dropped
  notification is emitted anywhere else.
\<close>

theorem step_dropped_iff_clamp_exceeded:
  fixes now :: number
  assumes "isRunning_flag w"
  shows "let a = accumulate now (queueNextIteration w);
             c = clampResidualDelay a
         in update now w = map_option emitUpdate (drain c) \<and>
            (if delayClamp a < residualDelayMs a
             then trace c = trace a @ [EmitGameStepDropped (residualDelayMs a - delayClamp a)] \<and>
                  0 < residualDelayMs a - delayClamp a \<and>
                  residualDelayMs c = delayClamp a
             else c = a) \<and>
            (\<forall>w'. update now w = Some w' \<longrightarrow>
                  (\<exists>n x. trace w' = trace c @ replicate n StepFn @ [EmitUpdate x]))"
proof -
  define a where "a = accumulate now (queueNextIteration w)"
  define c where "c = clampResidualDelay a"
  have 1: "update now w = map_option emitUpdate (drain c)"
    using assms by (simp add: update_running c_def a_def)
  have 2: "if delayClamp a < residualDelayMs a
           then trace c = trace a @ [EmitGameStepDropped (residualDelayMs a - delayClamp a)] \<and>
                0 < residualDelayMs a - delayClamp a \<and> residualDelayMs c = delayClamp a
           else c = a"
    by (simp add: c_def clampResidualDelay_def Let_def)
  have 3: "\<exists>n x. trace w' = trace c @ replicate n StepFn @ [EmitUpdate x]"
    if "update now w = Some w'" for w'
  proof -
    from that 1 obtain y where y: "drain c = Some y" "w' = emitUpdate y" by auto
    from drain_partial[OF y(1)] obtain n where "trace y = trace c @ replicate n StepFn"
      by blast
    with y(2) show ?thesis by (simp add: emitUpdate_frame)
  qed
  from 1 2 3 show ?thesis
    unfolding Let_def a_def[symmetric] c_def[symmetric] by blast
qed

text \<open>
  With a clamp of 30 ms, a wake-up 45 ms late drops 15 ms and drains the 30 ms that
  are left in three steps; a wake-up 25 ms late drops nothing.
\<close>

theorem step_dropped_iff_clamp_exceeded_witness:
  "isRunning_flag (woken 100 30) \<and>
   trace (clampResidualDelay (accumulate 45 (queueNextIteration (woken 100 30)))) =
     [SetTimeout (Finite 10), CurrentTime 45, EmitGameStepDropped 15] \<and>
   residualDelayMs (clampResidualDelay (accumulate 45 (queueNextIteration (woken 100 30)))) = 30 \<and>
   map_option trace (update 45 (woken 100 30)) =
     Some [SetTimeout (Finite 10), CurrentTime 45, EmitGameStepDropped 15,
           StepFn, StepFn, StepFn, EmitUpdate 0] \<and>
   map_option trace (update 25 (woken 100 30)) =
     Some [SetTimeout (Finite 10), CurrentTime 25, StepFn, StepFn, EmitUpdate (1 / 2)]"
  using step_dropped_iff_clamp_exceeded[of "woken 100 30" 45]
  by (simp add: cycle_eval woken_def countingStep_def)

section \<open>The next wake-up is queued first\<close>

text \<open>
  Claim C8. A cycle of a running loop, that is one the running-flag guard lets through,
  begins by queueing the next wake-up with a delay of the step interval, which is
  1000 / stepRate; only then does it read the clock, clamp and drain. In the log of a
  completed cycle the \<open>setTimeout\<close> call comes first and the clock reading second,
  neither occurs again, and the queue of pending wake-ups has grown by that one entry.
\<close>

theorem next_wakeup_queued_first:
  fixes now :: number
  assumes "isRunning_flag w"
  shows "let q = queueNextIteration w
         in timers q = timers w @ [stepIntervalMs w] \<and>
            trace q = trace w @ [SetTimeout (stepIntervalMs w)] \<and>
            (stepRate w \<noteq> 0 \<longrightarrow> stepIntervalMs w = Finite (1000 / stepRate w)) \<and>
            update now w =
              map_option emitUpdate (drain (clampResidualDelay (accumulate now q))) \<and>
            (\<forall>w'. update now w = Some w' \<longrightarrow>
                  timers w' = timers w @ [stepIntervalMs w] \<and>
                  (\<exists>rest. trace w' =
                            trace w @ SetTimeout (stepIntervalMs w) # CurrentTime now # rest \<and>
                          (\<forall>d. SetTimeout d \<notin> set rest) \<and>
                          (\<forall>t. CurrentTime t \<notin> set rest)))"
proof -
  define q where "q = queueNextIteration w"
  define c where "c = clampResidualDelay (accumulate now q)"
  have u: "update now w = map_option emitUpdate (drain c)"
    using assms by (simp add: update_running c_def q_def)
  have tc: "\<exists>pre. trace c = trace w @ SetTimeout (stepIntervalMs w) # CurrentTime now # pre \<and>
              (\<forall>d. SetTimeout d \<notin> set pre) \<and> (\<forall>t. CurrentTime t \<notin> set pre)"
    by (simp add: c_def q_def stage_frames)
  have post: "timers w' = timers w @ [stepIntervalMs w] \<and>
              (\<exists>rest. trace w' = trace w @ SetTimeout (stepIntervalMs w) # CurrentTime now # rest \<and>
                      (\<forall>d. SetTimeout d \<notin> set rest) \<and> (\<forall>t. CurrentTime t \<notin> set rest))"
    if "update now w = Some w'" for w'
  proof -
    from that u obtain y where y: "drain c = Some y" "w' = emitUpdate y" by auto
    from drain_partial[OF y(1)] obtain n where
      n: "trace y = trace c @ replicate n StepFn" "timers y = timers c" by blast
    from tc obtain pre where
      pre: "trace c = trace w @ SetTimeout (stepIntervalMs w) # CurrentTime now # pre"
           "\<forall>d. SetTimeout d \<notin> set pre" "\<forall>t. CurrentTime t \<notin> set pre" by blast
    let ?rest = "pre @ replicate n StepFn @ [EmitUpdate (fst (residualDelayAlpha y))]"
    have "trace w' = trace w @ SetTimeout (stepIntervalMs w) # CurrentTime now # ?rest"
      using y(2) n(1) pre(1) by (simp add: emitUpdate_frame)
    moreover have "\<forall>d. SetTimeout d \<notin> set ?rest" using pre(2) by auto
    moreover have "\<forall>t. CurrentTime t \<notin> set ?rest" using pre(3) by auto
    moreover have "timers w' = timers w @ [stepIntervalMs w]"
      using y(2) n(2) by (simp add: emitUpdate_frame c_def q_def stage_frames)
    ultimately show ?thesis by blast
  qed
  have "timers q = timers w @ [stepIntervalMs w]"
    "trace q = trace w @ [SetTimeout (stepIntervalMs w)]"
    by (simp_all add: q_def stage_frames)
  moreover have "stepRate w \<noteq> 0 \<longrightarrow> stepIntervalMs w = Finite (1000 / stepRate w)"
    by (simp add: stepIntervalMs_def)
  ultimately show ?thesis
    using u post unfolding Let_def q_def[symmetric] c_def[symmetric] by blast
qed

theorem next_wakeup_queued_first_witness:
  "isRunning_flag (woken 100 30) \<and> stepRate (woken 100 30) \<noteq> 0 \<and>
   stepIntervalMs (woken 100 30) = Finite (1000 / 100) \<and>
   update 25 (woken 100 30) =
     Some ((woken 100 30)\<lparr>previousStepTime := 25, residualDelayMs := 5, user := 2,
        timers := [Finite 10],
        trace := [SetTimeout (Finite 10), CurrentTime 25, StepFn, StepFn,
                  EmitUpdate (1 / 2)]\<rparr>)"
  using next_wakeup_queued_first[of "woken 100 30" 25]
  by (simp add: cycle_eval woken_def countingStep_def)

section \<open>A clamp below the step interval\<close>

text \<open>
  Claim C9. If the clamp is smaller than the step interval, a cycle in which the clamp
  check triggers invokes the step function not at all: the clamp leaves a residual
  equal to the clamp, which is below the interval, so the drain loop's body never
  runs. The cycle completes, logging the queued wake-up, the clock reading, the
  step-dropped notification and the update notification, and the caller's state is
  untouched. Nothing in the loop requires the clamp to reach the interval.
\<close>

theorem clamp_below_interval_no_steps:
  fixes now :: number
  assumes "isRunning_flag w" and "below (delayClamp w) (stepIntervalMs w)"
    and "delayClamp w < residualDelayMs w + (now - previousStepTime w)"
  shows "\<exists>w'. update now w = Some w' \<and>
           trace w' = trace w @ [SetTimeout (stepIntervalMs w), CurrentTime now,
              EmitGameStepDropped (residualDelayMs w + (now - previousStepTime w) - delayClamp w),
              EmitUpdate (fst (residualDelayAlpha w'))] \<and>
           user w' = user w \<and> residualDelayMs w' = delayClamp w"
proof -
  define c where "c = clampResidualDelay (accumulate now (queueNextIteration w))"
  have rc: "residualDelayMs c = delayClamp w"
    using assms(3) by (simp add: c_def stage_frames)
  have ic: "stepIntervalMs c = stepIntervalMs w"
    by (rule stepIntervalMs_cong) (simp add: c_def stage_frames)
  have d: "drain c = Some c"
  proof (cases "stepIntervalMs w")
    case Infinity
    then show ?thesis using ic by (simp add: drain_Infinity)
  next
    case (Finite i)
    with assms(2) have "delayClamp w < i" by simp
    then show ?thesis using ic Finite rc by (simp add: drain_unfold)
  qed
  have u: "update now w = Some (emitUpdate c)"
    using assms(1) d by (simp add: update_running c_def)
  have a: "fst (residualDelayAlpha (emitUpdate c)) = fst (residualDelayAlpha c)"
    by (simp add: residualDelayAlpha_def stepIntervalMs_def emitUpdate_frame
        split: quotient.splits)
  have "trace (emitUpdate c) = trace w @ [SetTimeout (stepIntervalMs w), CurrentTime now,
          EmitGameStepDropped (residualDelayMs w + (now - previousStepTime w) - delayClamp w),
          EmitUpdate (fst (residualDelayAlpha (emitUpdate c)))]"
    using assms(3) unfolding a by (simp add: c_def stage_frames)
  moreover have "user (emitUpdate c) = user w" by (simp add: c_def stage_frames)
  moreover have "residualDelayMs (emitUpdate c) = delayClamp w"
    using rc by (simp add: emitUpdate_frame)
  ultimately show ?thesis using u by blast
qed

text \<open>At 10 steps a second the interval is 100 ms, above a clamp of 30 ms.\<close>

theorem clamp_below_interval_no_steps_witness:
  "isRunning_flag (woken 10 30) \<and> below (delayClamp (woken 10 30)) (stepIntervalMs (woken 10 30)) \<and>
   delayClamp (woken 10 30) <
     residualDelayMs (woken 10 30) + (45 - previousStepTime (woken 10 30)) \<and>
   (\<exists>w'. update 45 (woken 10 30) = Some w' \<and>
      trace w' = [SetTimeout (Finite 100), CurrentTime 45, EmitGameStepDropped 15,
                  EmitUpdate (3 / 10)] \<and>
      user w' = 0 \<and> residualDelayMs w' = 30)"
  using clamp_below_interval_no_steps[of "woken 10 30" 45]
  by (simp add: cycle_eval woken_def)

section \<open>A fresh loop\<close>

text \<open>
  Claim C10. A loop that has just been constructed, whatever the arguments, has a
  residual delay of 0; its \<open>isRunning\<close> getter returns false and its
  \<open>residualDelayAlpha\<close> getter returns 0, and either getter hands back the loop and its
  environment exactly as they were.
\<close>

theorem fresh_loop_queries:
  "\<exists>w. new_GameLoop f hz opts now u = Inr w \<and> residualDelayMs w = 0 \<and>
        isRunning w = (False, w) \<and> residualDelayAlpha w = (0, w)"
  by (simp add: new_GameLoop_def isRunning_def residualDelayAlpha_def stepIntervalMs_def
      Let_def)

section \<open>Construction validates nothing\<close>

text \<open>
  Claim C7, as the code has it. The constructor checks none of its arguments: for every
  step rate, a rate of zero or below included, and every clamp option, a negative one
  included, construction succeeds and yields a stopped loop that stores the rate as
  given and the clamp as given (200 where the option is absent). A loop with rate zero
  then has the step interval \<open>1000 / 0 = Infinity\<close>.
\<close>

theorem construction_accepts_any_numbers:
  "\<exists>w. new_GameLoop f hz opts now u = Inr w \<and>
        stepRate w = hz \<and>
        delayClamp w = (case delayClampMs opts of Some c \<Rightarrow> c | None \<Rightarrow> 200) \<and>
        \<not> isRunning_flag w \<and>
        (hz = 0 \<longrightarrow> stepIntervalMs w = Infinity) \<and>
        (hz \<noteq> 0 \<longrightarrow> stepIntervalMs w = Finite (1000 / hz))"
  by (simp add: new_GameLoop_def provideDefaultsForMissingOpts_def stepIntervalMs_def Let_def)

theorem construction_accepts_any_numbers_witness:
  "new_GameLoop countingStep 0 \<lparr>delayClampMs = Some (- 5)\<rparr> 7 0 =
     Inr \<lparr>stepRate = 0, previousStepTime = 7, residualDelayMs = 0, delayClamp = - 5,
          isRunning_flag = False, stepFn = countingStep, user = 0, timers = [],
          trace = [CurrentTime 7]\<rparr> \<and>
   stepIntervalMs \<lparr>stepRate = 0, previousStepTime = 7, residualDelayMs = 0, delayClamp = - 5,
          isRunning_flag = False, stepFn = countingStep, user = 0 :: nat, timers = [],
          trace = [CurrentTime 7]\<rparr> = Infinity"
  using construction_accepts_any_numbers[of countingStep 0 "\<lparr>delayClampMs = Some (- 5)\<rparr>" 7 0]
  by (simp add: new_GameLoop_def provideDefaultsForMissingOpts_def stepIntervalMs_def Let_def)

text \<open>
  The claim as stated, a validation error for a rate of zero or below or for a negative
  clamp, fails: construction with rate 0, with rate -60 and with clamp -5 each return a
  loop, not an error.
\<close>

theorem construction_validation_counterexample:
  "\<not> isl (new_GameLoop countingStep 0 \<lparr>delayClampMs = None\<rparr> 0 0) \<and>
   \<not> isl (new_GameLoop countingStep (- 60) \<lparr>delayClampMs = None\<rparr> 0 0) \<and>
   \<not> isl (new_GameLoop countingStep 60 \<lparr>delayClampMs = Some (- 5)\<rparr> 0 0)"
  by (simp add: new_GameLoop_def Let_def)

section \<open>Stopping\<close>

text \<open>
  Claim C4, as the code has it. \<open>stop()\<close> clears the running flag, so that \<open>isRunning\<close>
  then returns false, and does nothing else: the wake-ups that are queued stay queued.
  A queued wake-up that fires while the loop is still stopped leaves the queue and
  changes nothing more. Calling \<open>stop()\<close> on a stopped loop gives the same state again;
  no path of \<open>stop()\<close> raises an error.
\<close>

theorem stop_clears_the_flag_only:
  "isRunning (stop w) = (False, stop w) \<and>
   stop w = w\<lparr>isRunning_flag := False\<rparr> \<and>
   timers (stop w) = timers w \<and>
   stop (stop w) = stop w \<and>
   fire now (stop w) = Some ((stop w)\<lparr>timers := tl (timers w)\<rparr>)"
  by (cases "timers w") (simp_all add: isRunning_def stop_def fire_def update_def)

text \<open>
  The claim as stated has \<open>stop()\<close> cancel the pending wake-up. It does not: a loop at
  100 steps a second that is started and then stopped still has its wake-up queued.
\<close>

theorem stop_cancels_wakeup_counterexample:
  "map_option timers
     (scenario countingStep 100 \<lparr>delayClampMs = None\<rparr> 0 0 [Start 0 0, Stop]) =
   Some [Finite 10]"
  by (simp add: scenario_eval)

section \<open>Wake-ups of a stopped loop\<close>

lemma fire_stopped:
  "\<not> isRunning_flag w \<Longrightarrow> fire now w = Some (w\<lparr>timers := tl (timers w)\<rparr>)"
  by (cases "timers w") (simp_all add: fire_def update_def)

lemma run_fires_stopped:
  "\<not> isRunning_flag w \<Longrightarrow>
   run (map Fire ts) w = Some (w\<lparr>timers := drop (length ts) (timers w)\<rparr>)"
proof (induction ts arbitrary: w)
  case Nil
  then show ?case by simp
next
  case (Cons t ts)
  let ?w = "w\<lparr>timers := tl (timers w)\<rparr>"
  have "\<not> isRunning_flag ?w" using Cons.prems by simp
  from Cons.IH[OF this] show ?case
    using Cons.prems by (simp add: fire_stopped drop_Suc)
qed

text \<open>
  Claim C5, as the code has it. Once \<open>stop()\<close> has returned, every wake-up that fires
  before the next \<open>start()\<close>, however many there are and whatever the clock reads,
  finds the flag cleared and aborts: the state after them is the state \<open>stop()\<close> left,
  with the fired wake-ups gone from the queue. So the step function is not invoked,
  nothing is emitted and nothing is queued again.
\<close>

theorem wakeups_after_stop_do_nothing:
  "run (map Fire ts) (stop w) = Some ((stop w)\<lparr>timers := drop (length ts) (timers w)\<rparr>)"
  using run_fires_stopped[of "stop w" ts] by (simp add: stop_def)

text \<open>
  The claim as stated has no step and no emission after \<open>stop()\<close> returns. A cycle that
  is under way is not cut short, though: with a step function that calls \<open>stop()\<close>
  during its first invocation, as the step functions of the tests do, a wake-up 25 ms
  late at 100 steps a second invokes the step function a second time and emits the
  update notification, both after \<open>stop()\<close> has returned: the flag is cleared when the
  first invocation returns, and it is still cleared at the end of the cycle.
\<close>

theorem stop_inside_step_counterexample:
  "\<not> isRunning_flag (callStepFn ((woken 100 200)\<lparr>stepFn := stoppingStep\<rparr>)) \<and>
   map_option trace
     (scenario stoppingStep 100 \<lparr>delayClampMs = None\<rparr> 0 0 [Start 0 0, Fire 25]) =
   Some [CurrentTime 0, CurrentTime 0, SetTimeout (Finite 10), CurrentTime 0, EmitUpdate 0,
         SetTimeout (Finite 10), CurrentTime 25, StepFn, StepFn, EmitUpdate (1 / 2)] \<and>
   map_option user
     (scenario stoppingStep 100 \<lparr>delayClampMs = None\<rparr> 0 0 [Start 0 0, Fire 25]) = Some 2 \<and>
   map_option isRunning_flag
     (scenario stoppingStep 100 \<lparr>delayClampMs = None\<rparr> 0 0 [Start 0 0, Fire 25]) = Some False"
  by (simp add: scenario_eval stoppingStep_def woken_def)

section \<open>Starting a loop that is running\<close>

lemma start_unfold:
  "start t1 t2 w =
     update t2 (w\<lparr>trace := trace w @ [CurrentTime t1], previousStepTime := t1,
                  isRunning_flag := True\<rparr>)"
  by (simp add: start_def stop_def Let_def)

text \<open>
  The wake-ups that are queued when \<open>start()\<close> is called stay queued, and the new one
  joins them.
\<close>

lemma start_keeps_queued_wakeups:
  assumes "start t1 t2 w = Some w'"
  shows "timers w' = timers w @ [stepIntervalMs w]"
proof -
  let ?w3 = "w\<lparr>trace := trace w @ [CurrentTime t1], previousStepTime := t1,
                isRunning_flag := True\<rparr>"
  let ?c = "clampResidualDelay (accumulate t2 (queueNextIteration ?w3))"
  from assms have "map_option emitUpdate (drain ?c) = Some w'"
    by (simp add: start_unfold update_running)
  then obtain y where y: "drain ?c = Some y" "w' = emitUpdate y" by auto
  from drain_partial[OF y(1)] have "timers y = timers ?c" by blast
  with y(2) show ?thesis
    by (simp add: emitUpdate_frame stage_frames stepIntervalMs_def)
qed




section \<open>The residual delay stays within one interval\<close>

lemma floor_remainder_bounds:
  fixes r i :: rat
  assumes "0 < i" "0 \<le> r"
  shows "0 \<le> r - of_nat (nat \<lfloor>r / i\<rfloor>) * i" "r - of_nat (nat \<lfloor>r / i\<rfloor>) * i < i"
proof -
  have "0 \<le> r / i" using assms by simp
  then have k: "0 \<le> \<lfloor>r / i\<rfloor>" by simp
  then have e: "(of_nat (nat \<lfloor>r / i\<rfloor>) :: rat) = of_int \<lfloor>r / i\<rfloor>" by simp
  have "of_int \<lfloor>r / i\<rfloor> \<le> r / i" by (rule of_int_floor_le)
  then have "of_int \<lfloor>r / i\<rfloor> * i \<le> r" using assms(1) by (simp add: le_divide_eq)
  then show "0 \<le> r - of_nat (nat \<lfloor>r / i\<rfloor>) * i" using e by simp
  have "r / i < of_int \<lfloor>r / i\<rfloor> + 1" using floor_correct[of "r / i"] by simp
  then have "r < (of_int \<lfloor>r / i\<rfloor> + 1) * i" using assms(1) by (simp add: divide_less_eq)
  then show "r - of_nat (nat \<lfloor>r / i\<rfloor>) * i < i" using e by (simp add: algebra_simps)
qed

lemma update_wellTimed:
  fixes now :: number
  assumes "wellTimed t w" "t \<le> now"
  shows "\<exists>w'. update now w = Some w' \<and> wellTimed now w' \<and> stepRate w' = stepRate w"
proof (cases "isRunning_flag w")
  case False
  then show ?thesis using assms by (auto simp add: update_stopped wellTimed_def)
next
  case True
  define c where "c = clampResidualDelay (accumulate now (queueNextIteration w))"
  define i where "i = 1000 / stepRate w"
  define n where "n = nat \<lfloor>residualDelayMs c / i\<rfloor>"
  define w' where "w' = emitUpdate ((tick i ^^ n) c)"
  have rate: "0 < stepRate w" and i: "0 < i" using assms(1) by (simp_all add: wellTimed_def i_def)
  have u: "update now w = Some w'"
    unfolding w'_def n_def i_def c_def using True rate by (rule update_positive_rate)
  have "0 \<le> residualDelayMs c"
    using assms by (simp add: c_def stage_frames wellTimed_def)
  from floor_remainder_bounds[OF i this]
  have "0 \<le> residualDelayMs w'" "residualDelayMs w' < i"
    by (simp_all add: w'_def emitUpdate_frame funpow_tick_frame n_def)
  moreover have "stepRate w' = stepRate w" "delayClamp w' = delayClamp w" "previousStepTime w' = now"
    by (simp_all add: w'_def emitUpdate_frame funpow_tick_frame c_def stage_frames)
  ultimately have "wellTimed now w'"
    using assms(1) by (simp add: wellTimed_def i_def)
  with u \<open>stepRate w' = stepRate w\<close> show ?thesis by blast
qed

lemma exec_wellTimed:
  assumes "wellTimed t w" "sorted (t # readings e)"
  shows "\<exists>w'. exec e w = Some w' \<and> wellTimed (last (t # readings e)) w' \<and>
              stepRate w' = stepRate w"
proof (cases e)
  case (Start t1 t2)
  let ?w3 = "w\<lparr>trace := trace w @ [CurrentTime t1], previousStepTime := t1,
                isRunning_flag := True\<rparr>"
  have "wellTimed t1 ?w3" using assms(1) by (simp add: wellTimed_def)
  moreover have "t1 \<le> t2" using assms(2) Start by simp
  ultimately obtain w' where "update t2 ?w3 = Some w'" "wellTimed t2 w'" "stepRate w' = stepRate ?w3"
    using update_wellTimed by blast
  then show ?thesis using Start by (simp add: start_unfold)
next
  case Stop
  then show ?thesis using assms(1) by (simp add: stop_def wellTimed_def)
next
  case (Fire now)
  show ?thesis
  proof (cases "timers w")
    case Nil
    then have "fire now w = Some w" by (simp add: fire_def)
    moreover have "wellTimed now w" using assms Fire by (simp add: wellTimed_def)
    ultimately show ?thesis using Fire by simp
  next
    case (Cons d ds)
    let ?w = "w\<lparr>timers := ds\<rparr>"
    have "wellTimed t ?w" using assms(1) by (simp add: wellTimed_def)
    moreover have "t \<le> now" using assms(2) Fire by simp
    ultimately obtain w' where "update now ?w = Some w'" "wellTimed now w'" "stepRate w' = stepRate ?w"
      using update_wellTimed by blast
    then show ?thesis using Fire Cons by (simp add: fire_def)
  qed
qed

lemma last_of_last: "last (last (t # xs) # ys) = last (t # xs @ ys)"
  by (cases "ys = []") (simp_all add: last_append)

lemma run_wellTimed:
  assumes "wellTimed t w" "sorted (t # concat (map readings evs))"
  shows "\<exists>w'. run evs w = Some w' \<and> wellTimed (last (t # concat (map readings evs))) w' \<and>
              stepRate w' = stepRate w"
  using assms
proof (induction evs arbitrary: t w)
  case Nil
  then show ?case by simp
next
  case (Cons e evs)
  let ?t = "last (t # readings e)"
  have s1: "sorted (t # readings e)"
    using Cons.prems(2) by (simp add: sorted_append)
  have s2: "sorted (?t # concat (map readings evs))"
    using Cons.prems(2) by (cases "readings e" rule: rev_cases) (auto simp add: sorted_append)
  from exec_wellTimed[OF Cons.prems(1) s1] obtain w1 where
    w1: "exec e w = Some w1" "wellTimed ?t w1" "stepRate w1 = stepRate w" by blast
  from Cons.IH[OF w1(2) s2] obtain w' where
    w': "run evs w1 = Some w'" "wellTimed (last (?t # concat (map readings evs))) w'"
        "stepRate w' = stepRate w1" by blast
  have "last (?t # concat (map readings evs)) = last (t # concat (map readings (e # evs)))"
    by (simp add: last_of_last)
  with w1 w' show ?case by simp
qed

text \<open>
  Claim C2, as the code has it. Take a loop constructed with a positive step rate and a
  clamp that is not negative, and let any events happen to it (calls of \<open>start()\<close> and
  \<open>stop()\<close>, wake-ups) while the clock never runs backwards. Then every one of these
  operations completes, and after construction and after each of them the residual
  delay is at least 0 and below the step interval, so that \<open>residualDelayAlpha\<close> lies in
  \<open>[0, 1)\<close>.
\<close>

theorem residual_stays_within_interval:
  assumes "0 < hz" and "0 \<le> provideDefaultsForMissingOpts opts"
    and "sorted (t0 # concat (map readings evs))"
  shows "\<exists>w. scenario f hz opts t0 u evs = Some w \<and>
             0 \<le> residualDelayMs w \<and> residualDelayMs w < 1000 / hz \<and>
             0 \<le> fst (residualDelayAlpha w) \<and> fst (residualDelayAlpha w) < 1"
proof -
  obtain w0 where w0: "new_GameLoop f hz opts t0 u = Inr w0" "stepRate w0 = hz"
    "wellTimed t0 w0"
    using assms(1,2) by (simp add: new_GameLoop_def Let_def wellTimed_def)
  from run_wellTimed[OF w0(3) assms(3)] obtain w where
    w: "run evs w0 = Some w" "wellTimed (last (t0 # concat (map readings evs))) w"
       "stepRate w = hz" using w0(2) by auto
  have s: "scenario f hz opts t0 u evs = Some w" using w0(1) w(1) by (simp add: scenario_def)
  have b: "0 \<le> residualDelayMs w" "residualDelayMs w < 1000 / hz"
    using w(2,3) by (simp_all add: wellTimed_def)
  define i where "i = 1000 / hz"
  have i: "0 < i" using assms(1) by (simp add: i_def)
  have "stepIntervalMs w = Finite i"
    using assms(1) w(3) by (simp add: stepIntervalMs_def i_def)
  then have a: "fst (residualDelayAlpha w) = residualDelayMs w / i"
    by (rule residualDelayAlpha_Finite)
  have "0 \<le> residualDelayMs w / i" "residualDelayMs w / i < 1"
    using b i by (simp_all add: i_def[symmetric] divide_less_eq)
  with s b a show ?thesis by simp
qed

theorem residual_stays_within_interval_witness:
  "(0::rat) < 100 \<and> 0 \<le> provideDefaultsForMissingOpts \<lparr>delayClampMs = Some 30\<rparr> \<and>
   sorted (0 # concat (map readings [Start 0 0, Fire 12, Fire 37, Stop, Fire 60])) \<and>
   map_option residualDelayMs
     (scenario countingStep 100 \<lparr>delayClampMs = Some 30\<rparr> 0 0
        [Start 0 0, Fire 12, Fire 37, Stop, Fire 60]) = Some 7 \<and>
   map_option (\<lambda>w. fst (residualDelayAlpha w))
     (scenario countingStep 100 \<lparr>delayClampMs = Some 30\<rparr> 0 0
        [Start 0 0, Fire 12, Fire 37, Stop, Fire 60]) = Some (7 / 10)"
  using residual_stays_within_interval[of 100 "\<lparr>delayClampMs = Some 30\<rparr>" 0
      "[Start 0 0, Fire 12, Fire 37, Stop, Fire 60]" countingStep 0]
  by (simp add: scenario_eval countingStep_def)

text \<open>
  The claim as stated holds for every loop and under any operation. It fails when the
  clock is set back (a loop at 60 steps a second started at clock reading 1000 and
  woken at reading 900 is left with a residual delay of -100 ms), and it fails for a
  negative clamp (with a clamp of -5 ms the first cycle leaves -5 ms).
\<close>

theorem residual_negative_counterexample:
  "map_option residualDelayMs
     (scenario countingStep 60 \<lparr>delayClampMs = None\<rparr> 1000 0 [Start 1000 1000, Fire 900]) =
   Some (- 100) \<and>
   map_option residualDelayMs
     (scenario countingStep 60 \<lparr>delayClampMs = Some (- 5)\<rparr> 0 0 [Start 0 0]) = Some (- 5)"
  by (simp add: scenario_eval countingStep_def)

end
